theory Spec2Isabelle
  imports Complex_Main
begin

section \<open>JavaScript numbers\<close>

text \<open>
  A JavaScript \<open>number\<close> that is known to be finite (a \<open>Date.now()\<close> reading, a
  difference of two readings, an array length) is a \<open>real\<close>. Where an operation of the
  source can leave the finite numbers (\<open>Math.min()\<close> of no arguments, a division by
  zero) the result is a \<open>jsnum\<close>, which adds the two infinities and NaN. Rounding of
  finite results is not modelled.
\<close>

datatype jsnum = Fin real | PosInf | NegInf | NaN

text \<open>ToBoolean on a number: \<open>0\<close> and \<open>NaN\<close> are falsy, everything else is truthy.\<close>

fun truthy :: "jsnum \<Rightarrow> bool" where
  "truthy (Fin x) = (x \<noteq> 0)"
| "truthy PosInf = True"
| "truthy NegInf = True"
| "truthy NaN = False"

text \<open>\<open>a || b\<close> on numbers.\<close>

definition js_or :: "jsnum \<Rightarrow> jsnum \<Rightarrow> jsnum" where
  "js_or a b = (if truthy a then a else b)"

text \<open>\<open>a / b\<close> on finite numbers (the divisor \<open>0\<close> is \<open>+0\<close>).\<close>

definition js_div :: "real \<Rightarrow> real \<Rightarrow> jsnum" where
  "js_div a b =
     (if b \<noteq> 0 then Fin (a / b)
      else if a = 0 then NaN
      else if 0 < a then PosInf
      else NegInf)"

text \<open>
  \<open>Math.min(...xs)\<close> and \<open>Math.max(...xs)\<close> on finite numbers: with no argument
  they are \<open>+Infinity\<close> and \<open>-Infinity\<close>.
\<close>

fun Math_min :: "real list \<Rightarrow> jsnum" where
  "Math_min [] = PosInf"
| "Math_min [x] = Fin x"
| "Math_min (x # y # ys) = Math_min (min x y # ys)"

fun Math_max :: "real list \<Rightarrow> jsnum" where
  "Math_max [] = NegInf"
| "Math_max [x] = Fin x"
| "Math_max (x # y # ys) = Math_max (max x y # ys)"

section \<open>Load test results and their summary\<close>

record LoadTestResult =
  url :: string
  success :: bool
  statusCode :: "nat option"
  responseTime :: real
  error :: "string option"
  timestamp :: real

record LoadTestSummary =
  totalRequests :: nat
  successfulRequests :: nat
  failedRequests :: nat
  averageResponseTime :: jsnum
  minResponseTime :: jsnum
  maxResponseTime :: jsnum
  requestsPerSecond :: jsnum
  duration :: real
  statusCodeDistribution :: "nat \<rightharpoonup> nat"
  errors :: "string \<rightharpoonup> nat"

text \<open>\<open>m[k] = (m[k] || 0) + 1\<close>\<close>

definition increment :: "('k \<rightharpoonup> nat) \<Rightarrow> 'k \<Rightarrow> ('k \<rightharpoonup> nat)" where
  "increment m k = m(k \<mapsto> (case m k of None \<Rightarrow> 0 | Some v \<Rightarrow> v) + 1)"

text \<open>The body of \<open>results.forEach\<close>: a status code counts when it is truthy.\<close>

definition countStatusCode :: "LoadTestResult \<Rightarrow> (nat \<rightharpoonup> nat) \<Rightarrow> (nat \<rightharpoonup> nat)" where
  "countStatusCode r m =
     (case statusCode r of
        None \<Rightarrow> m
      | Some c \<Rightarrow> if c \<noteq> 0 then increment m c else m)"

text \<open>The body of \<open>failedResults.forEach\<close>: an error message counts when it is truthy.\<close>

definition countError :: "LoadTestResult \<Rightarrow> (string \<rightharpoonup> nat) \<Rightarrow> (string \<rightharpoonup> nat)" where
  "countError r m =
     (case error r of
        None \<Rightarrow> m
      | Some e \<Rightarrow> if e \<noteq> [] then increment m e else m)"

definition calculateLoadTestSummary :: "LoadTestResult list \<Rightarrow> real \<Rightarrow> LoadTestSummary" where
  "calculateLoadTestSummary results dur =
     (let responseTimes = map responseTime results;
          successfulResults = filter (\<lambda>r. success r) results;
          failedResults = filter (\<lambda>r. \<not> success r) results
      in \<lparr> totalRequests = length results,
           successfulRequests = length successfulResults,
           failedRequests = length failedResults,
           averageResponseTime =
             js_or (js_div (fold (\<lambda>b a. a + b) responseTimes 0) (real (length responseTimes))) (Fin 0),
           minResponseTime = js_or (Math_min responseTimes) (Fin 0),
           maxResponseTime = js_or (Math_max responseTimes) (Fin 0),
           requestsPerSecond = js_or (js_div (real (length results)) dur) (Fin 0),
           duration = dur,
           statusCodeDistribution = fold countStatusCode results Map.empty,
           errors = fold countError failedResults Map.empty \<rparr>)"

section \<open>The load test scheduler\<close>

text \<open>
  The options of \<open>runLoadTest\<close>. The command line fills them with \<open>parseInt\<close>
  results; an absent option and the falsy values \<open>0\<close> and \<open>NaN\<close> behave alike.
\<close>

record LoadTestOptions =
  opt_concurrency :: "int option"
  opt_requestsPerUrl :: "int option"
  opt_duration :: "real option"

text \<open>\<open>options.concurrency || 10\<close> and \<open>options.requestsPerUrl || 1\<close>\<close>

definition concurrency :: "LoadTestOptions \<Rightarrow> int" where
  "concurrency opts = (case opt_concurrency opts of None \<Rightarrow> 10 | Some c \<Rightarrow> if c = 0 then 10 else c)"

definition requestsPerUrl :: "LoadTestOptions \<Rightarrow> int" where
  "requestsPerUrl opts = (case opt_requestsPerUrl opts of None \<Rightarrow> 1 | Some n \<Rightarrow> if n = 0 then 1 else n)"

record RequestQueueItem =
  item_url :: string
  index :: int

text \<open>
  The loop that fills \<open>requestQueue\<close>: pass \<open>i\<close> appends one item for every URL, in the
  order of \<open>urls\<close>.
\<close>

function requestQueue_loop ::
  "int \<Rightarrow> int \<Rightarrow> string list \<Rightarrow> RequestQueueItem list \<Rightarrow> RequestQueueItem list" where
  "requestQueue_loop i n urls q =
     (if i < n
      then requestQueue_loop (i + 1) n urls (q @ map (\<lambda>u. \<lparr> item_url = u, index = i \<rparr>) urls)
      else q)"
  by pat_completeness auto
termination
  by (relation "measure (\<lambda>(i, n, urls, q). nat (n - i))") auto

declare requestQueue_loop.simps [simp del]

definition requestQueue :: "string list \<Rightarrow> LoadTestOptions \<Rightarrow> RequestQueueItem list" where
  "requestQueue urls opts = requestQueue_loop 0 (requestsPerUrl opts) urls []"


text \<open>
  What \<open>axios.get\<close> does to one request of \<open>loadTestUrl\<close>: it resolves with a status
  (every status is accepted, \<open>validateStatus: () => true\<close>) or it rejects, and the
  \<open>catch\<close> block keeps the message.
\<close>

datatype outcome = Response nat | Failed string

definition loadTestUrl :: "string \<Rightarrow> real \<Rightarrow> outcome \<Rightarrow> real \<Rightarrow> LoadTestResult" where
  "loadTestUrl u startTime out now =
     (case out of
        Response status \<Rightarrow>
          \<lparr> url = u, success = (200 \<le> status \<and> status < 400), statusCode = Some status,
            responseTime = now - startTime, error = None, timestamp = now \<rparr>
      | Failed errorMessage \<Rightarrow>
          \<lparr> url = u, success = False, statusCode = None,
            responseTime = now - startTime, error = Some errorMessage, timestamp = now \<rparr>)"

text \<open>
  \<open>processQueue\<close> is an asynchronous function; its state between two events of the
  event loop is the rest of the queue the \<open>for\<close> loop still has to visit, the array
  \<open>activeRequests\<close> of the requests in flight (each with the \<open>startTime\<close> its
  \<open>loadTestUrl\<close> call read), the array \<open>results\<close>, and the place where the function
  stands:
  \<^item> \<open>Dispatching\<close>: the loop runs, the next iteration is about to start;
  \<^item> \<open>Suspended\<close>: the loop waits in \<open>await Promise.race(activeRequests)\<close>, the item
    of the iteration is still the head of the queue;
  \<^item> \<open>Woken\<close>: a request in flight has settled and its \<open>finally\<close> callback has
    removed it, the continuation of the \<open>await\<close> has not run yet;
  \<^item> \<open>Draining\<close>: the loop is left, the function waits in
    \<open>await Promise.all(activeRequests)\<close>;
  \<^item> \<open>Returned\<close>: \<open>processQueue\<close> has returned.
\<close>

datatype phase = Dispatching | Suspended | Woken | Draining | Returned

record InFlight =
  item :: RequestQueueItem
  startTime :: real

record Scheduler =
  queue :: "RequestQueueItem list"
  activeRequests :: "InFlight list"
  results :: "LoadTestResult list"
  phase :: phase

text \<open>
  The environment decides what happens next and when (every event carries the reading
  of \<open>Date.now()\<close> at which it happens):
  \<^item> \<open>Iterate now\<close>: the \<open>for\<close> loop starts its next iteration;
  \<^item> \<open>Complete i out now\<close>: the request at position \<open>i\<close> of \<open>activeRequests\<close>
    settles with \<open>out\<close>; its result is pushed and its \<open>finally\<close> callback splices it
    out of \<open>activeRequests\<close>;
  \<^item> \<open>Resume now\<close>: the continuation of \<open>await Promise.race\<close> runs.

  A completion may come between any two of the other events. The event loop allows
  fewer interleavings (no request settles while the loop runs from one iteration to
  the next), so what holds for every schedule here holds for every run of the source.
\<close>

datatype event = Iterate real | Complete nat outcome real | Resume real

definition initial :: "string list \<Rightarrow> LoadTestOptions \<Rightarrow> Scheduler" where
  "initial urls opts =
     \<lparr> queue = requestQueue urls opts, activeRequests = [], results = [], phase = Dispatching \<rparr>"

text \<open>\<open>duration && (Date.now() - testStartTime) / 1000 >= duration\<close>\<close>

definition durationExceeded :: "LoadTestOptions \<Rightarrow> real \<Rightarrow> real \<Rightarrow> bool" where
  "durationExceeded opts testStartTime now =
     (case opt_duration opts of
        None \<Rightarrow> False
      | Some d \<Rightarrow> d \<noteq> 0 \<and> d \<le> (now - testStartTime) / 1000)"

text \<open>\<open>await Promise.all(activeRequests)\<close>: with nothing in flight it is over at once.\<close>

definition awaitAll :: "InFlight list \<Rightarrow> phase" where
  "awaitAll active = (if active = [] then Returned else Draining)"

text \<open>
  Starting the request of an item: the asynchronous closure runs up to the \<open>axios.get\<close>
  of \<open>loadTestUrl\<close>, which has read \<open>startTime\<close>, and its promise is pushed.
\<close>

definition dispatch :: "RequestQueueItem \<Rightarrow> RequestQueueItem list \<Rightarrow> real \<Rightarrow> Scheduler \<Rightarrow> Scheduler" where
  "dispatch it rest now s =
     s\<lparr> queue := rest, activeRequests := activeRequests s @ [\<lparr> item = it, startTime = now \<rparr>] \<rparr>"

text \<open>\<open>activeRequests.splice(index, 1)\<close>\<close>

definition splice1 :: "nat \<Rightarrow> 'a list \<Rightarrow> 'a list" where
  "splice1 i xs = take i xs @ drop (Suc i) xs"

fun step :: "LoadTestOptions \<Rightarrow> real \<Rightarrow> event \<Rightarrow> Scheduler \<Rightarrow> Scheduler option" where
  "step opts testStartTime (Iterate now) s =
     (if phase s \<noteq> Dispatching then None
      else case queue s of
        [] \<Rightarrow> Some (s\<lparr> phase := awaitAll (activeRequests s) \<rparr>)
      | it # rest \<Rightarrow>
          if durationExceeded opts testStartTime now
          then Some (s\<lparr> phase := awaitAll (activeRequests s) \<rparr>)
          else if concurrency opts \<le> int (length (activeRequests s))
          then Some (s\<lparr> phase := Suspended \<rparr>)
          else Some (dispatch it rest now s))"
| "step opts testStartTime (Complete i out now) s =
     (if length (activeRequests s) \<le> i then None
      else
        let r = activeRequests s ! i;
            remaining = splice1 i (activeRequests s)
        in Some (s\<lparr> results := results s @ [loadTestUrl (item_url (item r)) (startTime r) out now],
                    activeRequests := remaining,
                    phase := (case phase s of
                                Suspended \<Rightarrow> Woken
                              | Draining \<Rightarrow> awaitAll remaining
                              | p \<Rightarrow> p) \<rparr>))"
| "step opts testStartTime (Resume now) s =
     (if phase s \<noteq> Woken then None
      else case queue s of
        [] \<Rightarrow> None
      | it # rest \<Rightarrow> Some ((dispatch it rest now s)\<lparr> phase := Dispatching \<rparr>))"

text \<open>A schedule is a list of events; it is refused when one of its events cannot happen.\<close>

fun run :: "LoadTestOptions \<Rightarrow> real \<Rightarrow> event list \<Rightarrow> Scheduler \<Rightarrow> Scheduler option" where
  "run opts testStartTime [] s = Some s"
| "run opts testStartTime (e # es) s =
     (case step opts testStartTime e s of
        None \<Rightarrow> None
      | Some s' \<Rightarrow> run opts testStartTime es s')"


text \<open>The number of requests started so far: those in flight and those that have settled.\<close>

definition started :: "Scheduler \<Rightarrow> nat" where
  "started s = length (results s) + length (activeRequests s)"

section \<open>The sitemap resolver\<close>

text \<open>
  An error value of JavaScript. Of an \<open>AxiosError\<close> only the status of its response is
  kept (\<open>None\<close> when no response was received); any other error keeps its message.
\<close>

datatype js_error = AxiosError "nat option" | Error string

text \<open>The interfaces of the parsed sitemap XML; every property may be missing.\<close>

record SitemapEntry =
  loc :: "string list option"
  lastmod :: "string list option"

record SitemapUrl = SitemapEntry +
  changefreq :: "string list option"
  priority :: "string list option"

record SitemapUrlSet =
  url_entries :: "SitemapUrl list option"

record SitemapIndex =
  sitemap :: "SitemapEntry list option"

record ParsedSitemap =
  urlset :: "SitemapUrlSet option"
  sitemapIndex :: "SitemapIndex option"

text \<open>
  What the first two statements of the \<open>try\<close> block give for a sitemap URL: \<open>axios.get\<close>
  rejects, or \<open>parseXML\<close> rejects (or gives nothing to read a property from), or there
  is a parsed document. A sitemap graph is a finite table from URLs to these; a URL that
  is not in the table cannot be fetched.
\<close>

datatype response = FetchFailed js_error | Unparsable string | Document ParsedSitemap

type_synonym web = "(string \<times> response) list"

definition fetch :: "web \<Rightarrow> string \<Rightarrow> response" where
  "fetch w sitemapUrl =
     (case map_of w sitemapUrl of None \<Rightarrow> FetchFailed (AxiosError None) | Some r \<Rightarrow> r)"

text \<open>\<open>s.endsWith(t)\<close>\<close>

definition endsWith :: "string \<Rightarrow> string \<Rightarrow> bool" where
  "endsWith s t = (length t \<le> length s \<and> drop (length s - length t) s = t)"

text \<open>
  The state the recursion shares: the set \<open>visitedSitemaps\<close>, and the list of the URLs
  given to \<open>axios.get\<close> so far, in the order of the calls.
\<close>

record Resolver =
  visitedSitemaps :: "string set"
  fetched :: "string list"

text \<open>\<open>entry.loc && entry.loc[0]\<close>: the first location, when there is one and it is truthy.\<close>

definition firstLoc :: "string list option \<Rightarrow> string option" where
  "firstLoc l =
     (case l of
        None \<Rightarrow> None
      | Some [] \<Rightarrow> None
      | Some (c # cs) \<Rightarrow> if c = [] then None else Some c)"

text \<open>\<open>result.sitemapIndex && result.sitemapIndex.sitemap\<close>\<close>

definition indexSitemaps :: "ParsedSitemap \<Rightarrow> SitemapEntry list option" where
  "indexSitemaps result = (case sitemapIndex result of None \<Rightarrow> None | Some idx \<Rightarrow> sitemap idx)"

text \<open>\<open>result.urlset && result.urlset.url\<close>\<close>

definition urlsetUrls :: "ParsedSitemap \<Rightarrow> SitemapUrl list option" where
  "urlsetUrls result = (case urlset result of None \<Rightarrow> None | Some us \<Rightarrow> url_entries us)"

text \<open>
  The \<open>loc\<close> properties one of the two \<open>for\<close> loops goes through: those of the index
  entries when the document has them, else those of the urlset entries, else none.
\<close>

definition locations :: "ParsedSitemap \<Rightarrow> string list option list" where
  "locations result =
     (case indexSitemaps result of
        Some sitemaps \<Rightarrow> map loc sitemaps
      | None \<Rightarrow>
          (case urlsetUrls result of
             Some urlEntries \<Rightarrow> map loc urlEntries
           | None \<Rightarrow> []))"

text \<open>
  The \<open>catch\<close> block: whatever the \<open>try\<close> block raises becomes the empty list.
  (\<open>None\<close> is not an error, it is a recursion that was cut off, see below.)
\<close>

fun catchAll ::
  "((js_error + string list) \<times> Resolver) option \<Rightarrow> ((js_error + string list) \<times> Resolver) option" where
  "catchAll None = None"
| "catchAll (Some (Inl e, st)) = Some (Inr [], st)"
| "catchAll (Some (Inr urls, st)) = Some (Inr urls, st)"

text \<open>\<open>visitedSitemaps.add(sitemapUrl)\<close>, then \<open>axios.get(sitemapUrl, ...)\<close>\<close>

definition visit :: "string \<Rightarrow> Resolver \<Rightarrow> Resolver" where
  "visit sitemapUrl st =
     st\<lparr> visitedSitemaps := insert sitemapUrl (visitedSitemaps st),
         fetched := fetched st @ [sitemapUrl] \<rparr>"

text \<open>
  \<open>extractUrlsFromSitemap\<close> and the body of its two \<open>for\<close> loops (they differ in their
  log messages only). A result is \<open>Inl\<close> when the call raises and \<open>Inr\<close> when it
  returns. The first argument bounds the depth of the recursion: \<open>None\<close> says that the
  bound was reached, not that the call returned. The delay of 500 ms before a nested
  call is not modelled.
\<close>

fun extractUrlsFromSitemap ::
      "nat \<Rightarrow> web \<Rightarrow> string \<Rightarrow> Resolver \<Rightarrow> ((js_error + string list) \<times> Resolver) option"
  and forLocations ::
      "nat \<Rightarrow> web \<Rightarrow> string list option list \<Rightarrow> string list \<Rightarrow> Resolver
         \<Rightarrow> ((js_error + string list) \<times> Resolver) option" where
  "extractUrlsFromSitemap 0 w sitemapUrl st = None"
| "extractUrlsFromSitemap (Suc depth) w sitemapUrl st =
     (if sitemapUrl \<in> visitedSitemaps st then Some (Inr [], st)
      else catchAll
        (case fetch w sitemapUrl of
           FetchFailed e \<Rightarrow> Some (Inl e, visit sitemapUrl st)
         | Unparsable m \<Rightarrow> Some (Inl (Error m), visit sitemapUrl st)
         | Document result \<Rightarrow> forLocations depth w (locations result) [] (visit sitemapUrl st)))"
| "forLocations depth w [] urls st = Some (Inr urls, st)"
| "forLocations depth w (l # ls) urls st =
     (case firstLoc l of
        None \<Rightarrow> forLocations depth w ls urls st
      | Some childUrl \<Rightarrow>
          if endsWith childUrl ''.xml''
          then (case extractUrlsFromSitemap depth w childUrl st of
                  None \<Rightarrow> None
                | Some (Inl e, st') \<Rightarrow> Some (Inl e, st')
                | Some (Inr childUrls, st') \<Rightarrow> forLocations depth w ls (urls @ childUrls) st')
          else forLocations depth w ls (urls @ [childUrl]) st)"

section \<open>The reachability checker\<close>

text \<open>
  What the server answers to the HEAD request: a status, or nothing (timeout, DNS,
  connection refused).
\<close>

datatype http_reply = Status nat | NoResponse

text \<open>
  \<open>await axios.head(url, ...)\<close> with the client's default \<open>validateStatus\<close>, which
  the call does not override: a status in \<open>[200, 300)\<close> resolves, any other status
  rejects with an \<open>AxiosError\<close> that carries the response, and no response rejects with
  an \<open>AxiosError\<close> without one.
\<close>

definition axios_head :: "http_reply \<Rightarrow> js_error + nat" where
  "axios_head reply =
     (case reply of
        Status s \<Rightarrow> if 200 \<le> s \<and> s < 300 then Inr s else Inl (AxiosError (Some s))
      | NoResponse \<Rightarrow> Inl (AxiosError None))"

text \<open>\<open>axios.isAxiosError(error) && error.response?.status === 404\<close>\<close>

fun isNotFound :: "js_error \<Rightarrow> bool" where
  "isNotFound (AxiosError status) = (status = Some 404)"
| "isNotFound (Error m) = False"

text \<open>
  \<open>checkPageExist\<close>, as a function of what \<open>await axios.head\<close> did: \<open>Inl\<close> when it
  threw, \<open>Inr\<close> when it resolved.
\<close>

definition checkPageExist :: "js_error + nat \<Rightarrow> js_error + bool" where
  "checkPageExist probe =
     (case probe of
        Inr response \<Rightarrow> Inr True
      | Inl err \<Rightarrow> if isNotFound err then Inr False else Inl err)"

section \<open>Measures, invariants and an example\<close>



text \<open>
  The invariant of the scheduler: every item of the queue is waiting, in flight or
  settled; the working set is within the concurrency; and each place of
  \<open>processQueue\<close> knows what the working set looks like.
\<close>

definition wellFormed :: "LoadTestOptions \<Rightarrow> nat \<Rightarrow> Scheduler \<Rightarrow> bool" where
  "wellFormed opts tot s =
     (started s + length (queue s) = tot
      \<and> int (length (activeRequests s)) \<le> max (concurrency opts) 0
      \<and> (case phase s of
            Dispatching \<Rightarrow> True
          | Suspended \<Rightarrow> queue s \<noteq> [] \<and> concurrency opts \<le> int (length (activeRequests s))
          | Woken \<Rightarrow> queue s \<noteq> [] \<and> int (length (activeRequests s)) < concurrency opts
          | Draining \<Rightarrow> activeRequests s \<noteq> []
          | Returned \<Rightarrow> activeRequests s = []))"

fun isComplete :: "event \<Rightarrow> bool" where
  "isComplete (Complete i out now) = True"
| "isComplete (Iterate now) = False"
| "isComplete (Resume now) = False"


text \<open>
  The resolver state \<open>st'\<close> comes from \<open>st\<close> by fetching the URLs \<open>new\<close>, each once,
  none of them visited before, and by marking exactly these as visited.
\<close>

definition grows :: "Resolver \<Rightarrow> Resolver \<Rightarrow> string list \<Rightarrow> bool" where
  "grows st st' new =
     (visitedSitemaps st' = visitedSitemaps st \<union> set new
      \<and> fetched st' = fetched st @ new
      \<and> distinct new
      \<and> set new \<inter> visitedSitemaps st = {})"

text \<open>The URLs of a graph that give a document, and how many of them are not visited yet.\<close>

definition docs :: "web \<Rightarrow> string set" where
  "docs w = {u \<in> fst ` set w. case fetch w u of Document d \<Rightarrow> True | _ \<Rightarrow> False}"

definition unvisited :: "web \<Rightarrow> Resolver \<Rightarrow> nat" where
  "unvisited w st = card (docs w - visitedSitemaps st)"

text \<open>
  The example of the spec, with one broken sitemap added: the index \<open>/a.xml\<close> names
  \<open>/b.xml\<close> and \<open>/c.xml\<close>; the index \<open>/b.xml\<close> names \<open>/a.xml\<close> (a cycle),
  \<open>/e.xml\<close>, which does not parse, and \<open>/d.xml\<close>; \<open>/c.xml\<close> and \<open>/d.xml\<close> are urlsets
  of pages.
\<close>

definition indexOf :: "string list \<Rightarrow> response" where
  "indexOf ls =
     Document \<lparr> urlset = None,
                sitemapIndex = Some \<lparr> sitemap = Some (map (\<lambda>l. \<lparr> loc = Some [l], lastmod = None \<rparr>) ls) \<rparr> \<rparr>"

definition urlsetOf :: "string list \<Rightarrow> response" where
  "urlsetOf ls =
     Document \<lparr> urlset = Some \<lparr> url_entries = Some (map (\<lambda>l. \<lparr> loc = Some [l], lastmod = None,
                                                           changefreq = None, priority = None \<rparr>) ls) \<rparr>,
                sitemapIndex = None \<rparr>"

definition exampleWeb :: web where
  "exampleWeb =
     [(''/a.xml'', indexOf [''/b.xml'', ''/c.xml'']),
      (''/b.xml'', indexOf [''/a.xml'', ''/e.xml'', ''/d.xml'']),
      (''/c.xml'', urlsetOf [''/c1'', ''/c2'']),
      (''/d.xml'', urlsetOf [''/d1'']),
      (''/e.xml'', Unparsable ''Non-whitespace before first tag.'')]"

section \<open>Properties of the summary\<close>

lemma Math_min_Min: "xs \<noteq> [] \<Longrightarrow> Math_min xs = Fin (Min (set xs))"
proof (induction xs rule: Math_min.induct)
  case 1
  then show ?case by simp
next
  case (2 x)
  then show ?case by simp
next
  case (3 x y ys)
  have "Min (set (x # y # ys)) = Min (set (min x y # ys))"
    by (cases "ys = []") (simp_all add: min.assoc)
  with 3 show ?case by simp
qed

lemma Math_max_Max: "xs \<noteq> [] \<Longrightarrow> Math_max xs = Fin (Max (set xs))"
proof (induction xs rule: Math_max.induct)
  case 1
  then show ?case by simp
next
  case (2 x)
  then show ?case by simp
next
  case (3 x y ys)
  have "Max (set (x # y # ys)) = Max (set (max x y # ys))"
    by (cases "ys = []") (simp_all add: max.assoc)
  with 3 show ?case by simp
qed

lemma js_or_Fin_0: "js_or (Fin x) (Fin 0) = Fin x"
  by (simp add: js_or_def)

text \<open>
  On a result collection that is not empty the two extrema of the summary are the
  minimum and the maximum of the response times.
\<close>

lemma summary_extrema_nonempty:
  assumes "rs \<noteq> []"
  shows "minResponseTime (calculateLoadTestSummary rs d) = Fin (Min (responseTime ` set rs))"
    and "maxResponseTime (calculateLoadTestSummary rs d) = Fin (Max (responseTime ` set rs))"
  using assms
  by (simp_all add: calculateLoadTestSummary_def Let_def Math_min_Min Math_max_Max js_or_Fin_0)

text \<open>
  C1 (the empty collection). The claim asks for \<open>minResponseTime = 0\<close> and
  \<open>maxResponseTime = 0\<close> on the empty result collection. The source computes
  \<open>Math.min(...responseTimes) || 0\<close> and \<open>Math.max(...responseTimes) || 0\<close>; with no
  argument the two calls give \<open>+Infinity\<close> and \<open>-Infinity\<close>, both truthy, so the
  fallback \<open>0\<close> is never taken: the summary of the empty collection has
  \<open>minResponseTime = +Infinity\<close> and \<open>maxResponseTime = -Infinity\<close>, and neither is \<open>0\<close>.
\<close>

theorem C1_empty_extrema_are_infinite:
  "minResponseTime (calculateLoadTestSummary [] d) = PosInf
   \<and> maxResponseTime (calculateLoadTestSummary [] d) = NegInf
   \<and> minResponseTime (calculateLoadTestSummary [] d) \<noteq> Fin 0
   \<and> maxResponseTime (calculateLoadTestSummary [] d) \<noteq> Fin 0"
  by (simp add: calculateLoadTestSummary_def Let_def js_or_def)

text \<open>
  Away from \<open>elapsedSeconds = 0\<close> the throughput is the quotient the spec names, and
  with no result and \<open>elapsedSeconds = 0\<close> it is \<open>0\<close>.
\<close>

lemma requestsPerSecond_nonzero_duration:
  "d \<noteq> 0 \<Longrightarrow> requestsPerSecond (calculateLoadTestSummary rs d) = Fin (real (length rs) / d)"
  by (simp add: calculateLoadTestSummary_def Let_def js_div_def js_or_def)

lemma requestsPerSecond_empty_zero_duration:
  "requestsPerSecond (calculateLoadTestSummary [] 0) = Fin 0"
  by (simp add: calculateLoadTestSummary_def Let_def js_div_def js_or_def)

text \<open>
  C2 (\<open>elapsedSeconds = 0\<close>). The claim asks for \<open>requestsPerSecond = 0\<close> whenever
  \<open>elapsedSeconds\<close> is \<open>0\<close>. The source computes \<open>results.length / duration || 0\<close>;
  with at least one result and \<open>duration = 0\<close> the quotient is \<open>+Infinity\<close>, which is
  truthy, so the summary reports \<open>requestsPerSecond = +Infinity\<close>, not \<open>0\<close>.
\<close>

theorem C2_zero_duration_gives_infinity:
  "requestsPerSecond (calculateLoadTestSummary
      [\<lparr> url = ''https://example.com/a'', success = True, statusCode = Some 200,
         responseTime = 0, error = None, timestamp = 1000 \<rparr>] 0) = PosInf"
  by (simp add: calculateLoadTestSummary_def Let_def js_div_def js_or_def)

text \<open>
  C10. For every result collection the summary counts each result in exactly one of
  the two buckets: \<open>totalRequests = successfulRequests + failedRequests\<close>, where the
  successful bucket holds the results whose success flag is set and the failed bucket
  the others.
\<close>

theorem C10_total_is_successful_plus_failed:
  "totalRequests (calculateLoadTestSummary rs d)
     = successfulRequests (calculateLoadTestSummary rs d)
       + failedRequests (calculateLoadTestSummary rs d)
   \<and> successfulRequests (calculateLoadTestSummary rs d) = length (filter success rs)
   \<and> failedRequests (calculateLoadTestSummary rs d) = length (filter (\<lambda>r. \<not> success r) rs)"
  by (simp add: calculateLoadTestSummary_def Let_def sum_length_filter_compl)

section \<open>Properties of the scheduler\<close>




lemma requestQueue_loop_nonpositive: "n \<le> i \<Longrightarrow> requestQueue_loop i n urls q = q"
  by (simp add: requestQueue_loop.simps)



lemma length_splice1: "i < length xs \<Longrightarrow> length (splice1 i xs) = length xs - 1"
  by (simp add: splice1_def)

lemma splice1_Nil: "\<not> length xs \<le> i \<Longrightarrow> (splice1 i xs = []) = (length xs = Suc 0)"
  by (cases xs) (auto simp: splice1_def)



lemma wellFormed_initial: "wellFormed opts (length (requestQueue urls opts)) (initial urls opts)"
  by (simp add: wellFormed_def initial_def started_def)

lemma wellFormed_step:
  "wellFormed opts tot s \<Longrightarrow> step opts t0 e s = Some s' \<Longrightarrow> wellFormed opts tot s'"
  by (cases e; cases "phase s")
     (auto simp: wellFormed_def started_def dispatch_def awaitAll_def length_splice1 splice1_Nil Let_def
           split: if_splits list.splits)

lemma wellFormed_run:
  "wellFormed opts tot s \<Longrightarrow> run opts t0 es s = Some s' \<Longrightarrow> wellFormed opts tot s'"
  by (induction es arbitrary: s) (auto split: option.splits dest: wellFormed_step)


text \<open>
  An option that is given and not \<open>0\<close> is taken as it is; an absent option and the
  option \<open>0\<close> give the default. A negative \<open>requestsPerUrl\<close> gives the empty queue.
\<close>

lemma concurrency_given: "opt_concurrency opts = Some c \<Longrightarrow> c \<noteq> 0 \<Longrightarrow> concurrency opts = c"
  by (simp add: concurrency_def)

lemma concurrency_default:
  "opt_concurrency opts = None \<or> opt_concurrency opts = Some 0 \<Longrightarrow> concurrency opts = 10"
  by (auto simp: concurrency_def)

lemma requestsPerUrl_given: "opt_requestsPerUrl opts = Some n \<Longrightarrow> n \<noteq> 0 \<Longrightarrow> requestsPerUrl opts = n"
  by (simp add: requestsPerUrl_def)

lemma requestsPerUrl_default:
  "opt_requestsPerUrl opts = None \<or> opt_requestsPerUrl opts = Some 0 \<Longrightarrow> requestsPerUrl opts = 1"
  by (auto simp: requestsPerUrl_def)

lemma requestQueue_negative: "requestsPerUrl opts < 0 \<Longrightarrow> requestQueue urls opts = []"
  by (simp add: requestQueue_def requestQueue_loop_nonpositive)

lemma no_cap_never_exceeded: "opt_duration opts = None \<Longrightarrow> \<not> durationExceeded opts t0 now"
  by (simp add: durationExceeded_def)






text \<open>At capacity nothing but a completion changes the queue or the working set.\<close>

lemma at_capacity_step:
  assumes "wellFormed opts tot s" and "int (length (activeRequests s)) = concurrency opts"
    and "step opts t0 e s = Some s'" and "\<not> isComplete e"
  shows "queue s' = queue s \<and> activeRequests s' = activeRequests s"
  using assms
  by (cases e; cases "phase s")
     (auto simp: wellFormed_def awaitAll_def split: if_splits list.splits)

lemma at_capacity_run:
  assumes "int (length (activeRequests s)) = concurrency opts"
  shows "wellFormed opts tot s \<Longrightarrow> int (length (activeRequests s)) = concurrency opts \<Longrightarrow>
    run opts t0 es s = Some s' \<Longrightarrow> list_all (\<lambda>e. \<not> isComplete e) es \<Longrightarrow>
    queue s' = queue s \<and> activeRequests s' = activeRequests s"
proof (induction es arbitrary: s)
  case Nil
  then show ?case by simp
next
  case (Cons e es)
  then obtain s1 where s1: "step opts t0 e s = Some s1" and r: "run opts t0 es s1 = Some s'"
    by (auto split: option.splits)
  from Cons.prems have e: "\<not> isComplete e" and es: "list_all (\<lambda>e. \<not> isComplete e) es" by simp_all
  from at_capacity_step [OF Cons.prems(1,2) s1 e]
  have same: "queue s1 = queue s \<and> activeRequests s1 = activeRequests s" .
  have wf: "wellFormed opts tot s1" using wellFormed_step [OF Cons.prems(1) s1] .
  from Cons.IH [OF wf _ r es] same Cons.prems(2) show ?case by simp
qed








text \<open>
  C7. With \<open>concurrency = c\<close> (a positive integer) the number of requests in flight
  is at most \<open>c\<close> in every state a run reaches; and from a state with \<open>c\<close> requests
  in flight, events that are not completions leave the queue and the working set as
  they are: nothing is dispatched before a request in flight completes and is
  removed.
\<close>

theorem C7_in_flight_bounded_by_concurrency:
  assumes c: "concurrency opts = c" "0 < c"
    and r: "run opts t0 es (initial urls opts) = Some s"
    and r': "run opts t0 es' s = Some s'"
  shows "int (length (activeRequests s)) \<le> c
       \<and> (int (length (activeRequests s)) = c \<and> list_all (\<lambda>e. \<not> isComplete e) es'
            \<longrightarrow> queue s' = queue s \<and> activeRequests s' = activeRequests s)"
proof -
  have cc: "concurrency opts = c" using c(1) .
  have wf: "wellFormed opts (length (requestQueue urls opts)) s"
    using wellFormed_run [OF wellFormed_initial r] .
  then have bound: "int (length (activeRequests s)) \<le> c"
    using cc c(2) by (simp add: wellFormed_def)
  have "queue s' = queue s \<and> activeRequests s' = activeRequests s"
    if "int (length (activeRequests s)) = c" and "list_all (\<lambda>e. \<not> isComplete e) es'"
    using at_capacity_run [OF _ wf _ r' that(2)] that(1) cc by simp
  with bound show ?thesis by blast
qed

theorem C7_in_flight_bounded_by_concurrency_witness:
  "concurrency \<lparr> opt_concurrency = Some 1, opt_requestsPerUrl = Some 2, opt_duration = None \<rparr> = 1
   \<and> (0::int) < 1
   \<and> run \<lparr> opt_concurrency = Some 1, opt_requestsPerUrl = Some 2, opt_duration = None \<rparr> 0
        [Iterate 0]
        (initial [''https://example.com/a'']
           \<lparr> opt_concurrency = Some 1, opt_requestsPerUrl = Some 2, opt_duration = None \<rparr>)
      = Some \<lparr> queue = [\<lparr> item_url = ''https://example.com/a'', index = 1 \<rparr>],
               activeRequests =
                 [\<lparr> item = \<lparr> item_url = ''https://example.com/a'', index = 0 \<rparr>, startTime = 0 \<rparr>],
               results = [], phase = Dispatching \<rparr>
   \<and> run \<lparr> opt_concurrency = Some 1, opt_requestsPerUrl = Some 2, opt_duration = None \<rparr> 0
        [Iterate 1]
        \<lparr> queue = [\<lparr> item_url = ''https://example.com/a'', index = 1 \<rparr>],
          activeRequests =
            [\<lparr> item = \<lparr> item_url = ''https://example.com/a'', index = 0 \<rparr>, startTime = 0 \<rparr>],
          results = [], phase = Dispatching \<rparr>
      = Some \<lparr> queue = [\<lparr> item_url = ''https://example.com/a'', index = 1 \<rparr>],
               activeRequests =
                 [\<lparr> item = \<lparr> item_url = ''https://example.com/a'', index = 0 \<rparr>, startTime = 0 \<rparr>],
               results = [], phase = Suspended \<rparr>
   \<and> list_all (\<lambda>e. \<not> isComplete e) [Iterate 1]"
proof -
  let ?opts = "\<lparr> opt_concurrency = Some 1, opt_requestsPerUrl = Some 2, opt_duration = None \<rparr>"
  let ?s = "\<lparr> queue = [\<lparr> item_url = ''https://example.com/a'', index = 1 \<rparr>],
               activeRequests =
                 [\<lparr> item = \<lparr> item_url = ''https://example.com/a'', index = 0 \<rparr>, startTime = 0 \<rparr>],
               results = [], phase = Dispatching \<rparr>"
  let ?s' = "\<lparr> queue = [\<lparr> item_url = ''https://example.com/a'', index = 1 \<rparr>],
               activeRequests =
                 [\<lparr> item = \<lparr> item_url = ''https://example.com/a'', index = 0 \<rparr>, startTime = 0 \<rparr>],
               results = [], phase = Suspended \<rparr>"
  have h1: "concurrency ?opts = 1" by (simp add: concurrency_def)
  have h2: "(0::int) < 1" by simp
  have h3: "run ?opts 0 [Iterate 0] (initial [''https://example.com/a''] ?opts) = Some ?s"
    by (simp add: initial_def requestQueue_def requestsPerUrl_def requestQueue_loop.simps
          durationExceeded_def concurrency_def dispatch_def)
  have h4: "run ?opts 0 [Iterate 1] ?s = Some ?s'"
    by (simp add: durationExceeded_def concurrency_def)
  have h5: "list_all (\<lambda>e. \<not> isComplete e) [Iterate 1]" by simp
  from C7_in_flight_bounded_by_concurrency [OF h1 h2 h3 h4] h1 h2 h3 h4 h5 show ?thesis by simp
qed




section \<open>Properties of the resolver\<close>

lemma catchAll_Some:
  "catchAll x = Some (r, st') \<Longrightarrow>
     (\<exists>e. x = Some (Inl e, st') \<and> r = Inr []) \<or> (\<exists>us. x = Some (Inr us, st') \<and> r = Inr us)"
  by (cases x rule: catchAll.cases) auto

lemma extract_never_raises:
  "extractUrlsFromSitemap depth w u st = Some (r, st') \<Longrightarrow> \<exists>us. r = Inr us"
  by (cases depth) (auto split: if_splits dest: catchAll_Some)

lemma no_xml_emitted:
  shows "extractUrlsFromSitemap depth w u st = Some (Inr us, st')
           \<Longrightarrow> \<forall>p \<in> set us. \<not> endsWith p ''.xml''"
    and "forLocations depth w ls urls st = Some (Inr us, st')
           \<Longrightarrow> \<forall>p \<in> set urls. \<not> endsWith p ''.xml''
           \<Longrightarrow> \<forall>p \<in> set us. \<not> endsWith p ''.xml''"
proof (induction depth w u st and depth w ls urls st arbitrary: us st' and us st'
       rule: extractUrlsFromSitemap_forLocations.induct)
  case (1 w sitemapUrl st)
  then show ?case by simp
next
  case (2 depth w sitemapUrl st)
  show ?case
  proof (cases "sitemapUrl \<in> visitedSitemaps st")
    case True
    with "2.prems" show ?thesis by simp
  next
    case False
    with "2.prems" have c: "catchAll
        (case fetch w sitemapUrl of
           FetchFailed e \<Rightarrow> Some (Inl e, visit sitemapUrl st)
         | Unparsable m \<Rightarrow> Some (Inl (Error m), visit sitemapUrl st)
         | Document result \<Rightarrow> forLocations depth w (locations result) [] (visit sitemapUrl st))
        = Some (Inr us, st')" by simp
    show ?thesis
    proof (cases "fetch w sitemapUrl")
      case (FetchFailed e)
      with c show ?thesis by simp
    next
      case (Unparsable m)
      with c show ?thesis by simp
    next
      case (Document result)
      with c have "catchAll (forLocations depth w (locations result) [] (visit sitemapUrl st)) = Some (Inr us, st')"
        by simp
      from catchAll_Some [OF this]
      have "us = [] \<or> forLocations depth w (locations result) [] (visit sitemapUrl st) = Some (Inr us, st')"
        by auto
      then show ?thesis
      proof
        assume "us = []"
        then show ?thesis by simp
      next
        assume "forLocations depth w (locations result) [] (visit sitemapUrl st) = Some (Inr us, st')"
        from "2.IH" [OF False Document this] show ?thesis by simp
      qed
    qed
  qed
next
  case (3 depth w urls st)
  then show ?case by simp
next
  case (4 depth w l ls urls st)
  show ?case
  proof (cases "firstLoc l")
    case None
    with "4.prems" "4.IH"(1) show ?thesis by simp
  next
    case (Some childUrl)
    show ?thesis
    proof (cases "endsWith childUrl ''.xml''")
      case False
      with Some "4.prems" have "forLocations depth w ls (urls @ [childUrl]) st = Some (Inr us, st')"
        by simp
      from "4.IH"(4) [OF Some False this] "4.prems"(2) False show ?thesis by simp
    next
      case True
      with Some "4.prems"(1) obtain childUrls st1 where
        ch: "extractUrlsFromSitemap depth w childUrl st = Some (Inr childUrls, st1)"
        and rest: "forLocations depth w ls (urls @ childUrls) st1 = Some (Inr us, st')"
        by (auto split: option.splits sum.splits)
      from "4.IH"(2) [OF Some True ch] have "\<forall>p \<in> set childUrls. \<not> endsWith p ''.xml''" .
      with "4.prems"(2) have "\<forall>p \<in> set (urls @ childUrls). \<not> endsWith p ''.xml''" by auto
      from "4.IH"(3) [OF Some True ch refl refl rest this] show ?thesis .
    qed
  qed
qed


lemma grows_refl: "grows st st []"
  by (simp add: grows_def)

lemma grows_visit: "u \<notin> visitedSitemaps st \<Longrightarrow> grows st (visit u st) [u]"
  by (simp add: grows_def visit_def)

lemma grows_trans: "grows st st1 a \<Longrightarrow> grows st1 st2 b \<Longrightarrow> grows st st2 (a @ b)"
  by (auto simp: grows_def)

lemma fetch_log:
  shows "extractUrlsFromSitemap depth w u st = Some (r, st') \<Longrightarrow> \<exists>new. grows st st' new"
    and "forLocations depth w ls urls st = Some (r, st') \<Longrightarrow> \<exists>new. grows st st' new"
proof (induction depth w u st and depth w ls urls st arbitrary: r st' and r st'
       rule: extractUrlsFromSitemap_forLocations.induct)
  case (1 w sitemapUrl st)
  then show ?case by simp
next
  case (2 depth w sitemapUrl st)
  show ?case
  proof (cases "sitemapUrl \<in> visitedSitemaps st")
    case True
    with "2.prems" have "st' = st" by simp
    then show ?thesis using grows_refl by blast
  next
    case False
    note v = grows_visit [OF False]
    from False "2.prems" have c: "catchAll
        (case fetch w sitemapUrl of
           FetchFailed e \<Rightarrow> Some (Inl e, visit sitemapUrl st)
         | Unparsable m \<Rightarrow> Some (Inl (Error m), visit sitemapUrl st)
         | Document result \<Rightarrow> forLocations depth w (locations result) [] (visit sitemapUrl st))
        = Some (r, st')" by simp
    show ?thesis
    proof (cases "fetch w sitemapUrl")
      case (FetchFailed e)
      with c have "st' = visit sitemapUrl st" by simp
      with v show ?thesis by blast
    next
      case (Unparsable m)
      with c have "st' = visit sitemapUrl st" by simp
      with v show ?thesis by blast
    next
      case (Document result)
      with c have "catchAll (forLocations depth w (locations result) [] (visit sitemapUrl st)) = Some (r, st')"
        by simp
      from catchAll_Some [OF this] obtain r0 where
        "forLocations depth w (locations result) [] (visit sitemapUrl st) = Some (r0, st')"
        by auto
      from "2.IH" [OF False Document this] obtain new where "grows (visit sitemapUrl st) st' new" ..
      from grows_trans [OF v this] show ?thesis by blast
    qed
  qed
next
  case (3 depth w urls st)
  then have "st' = st" by simp
  then show ?case using grows_refl by blast
next
  case (4 depth w l ls urls st)
  show ?case
  proof (cases "firstLoc l")
    case None
    with "4.prems" "4.IH"(1) show ?thesis by simp
  next
    case (Some childUrl)
    show ?thesis
    proof (cases "endsWith childUrl ''.xml''")
      case False
      with Some "4.prems" have "forLocations depth w ls (urls @ [childUrl]) st = Some (r, st')"
        by simp
      from "4.IH"(4) [OF Some False this] show ?thesis .
    next
      case True
      with Some "4.prems"(1) obtain x st1 where
        ch: "extractUrlsFromSitemap depth w childUrl st = Some (x, st1)"
        by (auto split: option.splits)
      from "4.IH"(2) [OF Some True ch] obtain a where a: "grows st st1 a" ..
      show ?thesis
      proof (cases x)
        case (Inl e)
        with Some True ch "4.prems"(1) have "st' = st1" by simp
        with a show ?thesis by blast
      next
        case (Inr childUrls)
        with Some True ch "4.prems"(1)
        have rest: "forLocations depth w ls (urls @ childUrls) st1 = Some (r, st')" by simp
        from "4.IH"(3) [OF Some True ch refl Inr rest] obtain b where "grows st1 st' b" ..
        from grows_trans [OF a this] show ?thesis by blast
      qed
    qed
  qed
qed

lemma finite_docs: "finite (docs w)"
  by (simp add: docs_def)

lemma card_docs: "card (docs w) \<le> length w"
proof -
  have "docs w \<subseteq> fst ` set w" by (auto simp: docs_def)
  then have "card (docs w) \<le> card (fst ` set w)" by (simp add: card_mono)
  also have "\<dots> \<le> card (set w)" by (simp add: card_image_le)
  also have "\<dots> \<le> length w" by (rule card_length)
  finally show ?thesis .
qed

lemma unvisited_le_length: "unvisited w st \<le> length w"
proof -
  have "card (docs w - visitedSitemaps st) \<le> card (docs w)"
    by (simp add: card_mono finite_docs)
  with card_docs [of w] show ?thesis by (simp add: unvisited_def)
qed

lemma unvisited_grows: "grows st st' new \<Longrightarrow> unvisited w st' \<le> unvisited w st"
  unfolding unvisited_def grows_def
  by (intro card_mono) (auto simp: finite_docs)

lemma fetch_Document_docs: "fetch w u = Document d \<Longrightarrow> u \<in> docs w"
  by (auto simp: docs_def fetch_def split: option.splits dest: map_of_SomeD intro: rev_image_eqI)

lemma unvisited_visit:
  assumes "fetch w u = Document d" and "u \<notin> visitedSitemaps st"
  shows "unvisited w (visit u st) < unvisited w st"
proof -
  have "u \<in> docs w - visitedSitemaps st" using assms fetch_Document_docs by simp
  moreover have "docs w - visitedSitemaps (visit u st) = (docs w - visitedSitemaps st) - {u}"
    by (auto simp: visit_def)
  moreover have "finite (docs w - visitedSitemaps st)" using finite_docs [of w] by simp
  ultimately show ?thesis
    unfolding unvisited_def using card_Diff1_less [of "docs w - visitedSitemaps st" u]
    by simp
qed

lemma enough_depth:
  shows "unvisited w st < depth \<Longrightarrow> \<exists>r st'. extractUrlsFromSitemap depth w u st = Some (r, st')"
    and "unvisited w st < depth \<Longrightarrow> \<exists>r st'. forLocations depth w ls urls st = Some (r, st')"
proof (induction depth w u st and depth w ls urls st
       rule: extractUrlsFromSitemap_forLocations.induct)
  case (1 w sitemapUrl st)
  then show ?case by simp
next
  case (2 depth w sitemapUrl st)
  show ?case
  proof (cases "sitemapUrl \<in> visitedSitemaps st")
    case True
    then show ?thesis by simp
  next
    case False
    show ?thesis
    proof (cases "fetch w sitemapUrl")
      case (FetchFailed e)
      with False show ?thesis by simp
    next
      case (Unparsable m)
      with False show ?thesis by simp
    next
      case (Document result)
      from unvisited_visit [OF Document False] "2.prems"
      have "unvisited w (visit sitemapUrl st) < depth" by simp
      from "2.IH" [OF False Document this] obtain r0 st' where
        "forLocations depth w (locations result) [] (visit sitemapUrl st) = Some (r0, st')" by blast
      with False Document show ?thesis by (cases r0) simp_all
    qed
  qed
next
  case (3 depth w urls st)
  then show ?case by simp
next
  case (4 depth w l ls urls st)
  show ?case
  proof (cases "firstLoc l")
    case None
    with "4.prems" "4.IH"(1) show ?thesis by simp
  next
    case (Some childUrl)
    show ?thesis
    proof (cases "endsWith childUrl ''.xml''")
      case False
      from "4.IH"(4) [OF Some False "4.prems"] Some False show ?thesis by simp
    next
      case True
      from "4.IH"(2) [OF Some True "4.prems"] obtain x st1 where
        ch: "extractUrlsFromSitemap depth w childUrl st = Some (x, st1)" by blast
      show ?thesis
      proof (cases x)
        case (Inl e)
        with Some True ch show ?thesis by simp
      next
        case (Inr childUrls)
        from fetch_log(1) [OF ch] obtain a where "grows st st1 a" ..
        from unvisited_grows [OF this, of w] "4.prems" have "unvisited w st1 < depth" by simp
        from "4.IH"(3) [OF Some True ch refl Inr this] Some True ch Inr show ?thesis by simp
      qed
    qed
  qed
qed


lemma deeper_same:
  shows "extractUrlsFromSitemap depth w u st = Some x \<Longrightarrow> extractUrlsFromSitemap (Suc depth) w u st = Some x"
    and "forLocations depth w ls urls st = Some x \<Longrightarrow> forLocations (Suc depth) w ls urls st = Some x"
proof (induction depth w u st and depth w ls urls st arbitrary: x and x
       rule: extractUrlsFromSitemap_forLocations.induct)
  case (1 w sitemapUrl st)
  then show ?case by simp
next
  case (2 depth w sitemapUrl st)
  show ?case
  proof (cases "sitemapUrl \<in> visitedSitemaps st")
    case True
    with "2.prems" show ?thesis by simp
  next
    case False
    show ?thesis
    proof (cases "fetch w sitemapUrl")
      case (FetchFailed e)
      with False "2.prems" show ?thesis by simp
    next
      case (Unparsable m)
      with False "2.prems" show ?thesis by simp
    next
      case (Document result)
      with False "2.prems"
      have c: "catchAll (forLocations depth w (locations result) [] (visit sitemapUrl st)) = Some x"
        by simp
      then obtain y where y: "forLocations depth w (locations result) [] (visit sitemapUrl st) = Some y"
        by (cases "forLocations depth w (locations result) [] (visit sitemapUrl st)") auto
      from "2.IH" [OF False Document y]
      have "forLocations (Suc depth) w (locations result) [] (visit sitemapUrl st) = Some y" .
      with c y have "catchAll (forLocations (Suc depth) w (locations result) [] (visit sitemapUrl st)) = Some x"
        by simp
      with False Document show ?thesis
        by (simp del: forLocations.simps)
    qed
  qed
next
  case (3 depth w urls st)
  then show ?case by simp
next
  case (4 depth w l ls urls st)
  show ?case
  proof (cases "firstLoc l")
    case None
    with "4.prems" "4.IH"(1) show ?thesis by simp
  next
    case (Some childUrl)
    show ?thesis
    proof (cases "endsWith childUrl ''.xml''")
      case False
      with Some "4.prems" have "forLocations depth w ls (urls @ [childUrl]) st = Some x" by simp
      from "4.IH"(4) [OF Some False this] Some False show ?thesis by simp
    next
      case True
      with Some "4.prems" obtain r st1 where
        ch: "extractUrlsFromSitemap depth w childUrl st = Some (r, st1)"
        by (auto split: option.splits)
      from "4.IH"(2) [OF Some True ch]
      have ch': "extractUrlsFromSitemap (Suc depth) w childUrl st = Some (r, st1)" .
      show ?thesis
      proof (cases r)
        case (Inl e)
        with Some True ch "4.prems" have "x = (Inl e, st1)" by simp
        with Some True ch' Inl show ?thesis
          by (simp del: extractUrlsFromSitemap.simps)
      next
        case (Inr childUrls)
        with Some True ch "4.prems"
        have rest: "forLocations depth w ls (urls @ childUrls) st1 = Some x" by simp
        from "4.IH"(3) [OF Some True ch refl Inr rest]
        have "forLocations (Suc depth) w ls (urls @ childUrls) st1 = Some x" .
        with Some True ch' Inr show ?thesis
          by (simp del: extractUrlsFromSitemap.simps)
      qed
    qed
  qed
qed

lemma deeper_same_le:
  "extractUrlsFromSitemap depth w u st = Some x \<Longrightarrow> depth \<le> depth'
     \<Longrightarrow> extractUrlsFromSitemap depth' w u st = Some x"
proof (induction depth')
  case 0
  then show ?case by simp
next
  case (Suc d)
  show ?case
  proof (cases "depth = Suc d")
    case True
    with Suc.prems show ?thesis by (simp del: extractUrlsFromSitemap.simps)
  next
    case False
    with Suc.prems have "depth \<le> d" by simp
    from deeper_same(1) [OF Suc.IH [OF Suc.prems(1) this]] show ?thesis .
  qed
qed

lemma extract_returns:
  "length w < depth \<Longrightarrow> \<exists>us st'. extractUrlsFromSitemap depth w u st = Some (Inr us, st')"
proof -
  assume "length w < depth"
  with unvisited_le_length [of w st] have "unvisited w st < depth" by simp
  from enough_depth(1) [OF this] obtain r st' where
    r: "extractUrlsFromSitemap depth w u st = Some (r, st')" by blast
  from extract_never_raises [OF r] r show ?thesis by blast
qed

lemma extract_visited:
  "u \<in> visitedSitemaps st \<Longrightarrow> extractUrlsFromSitemap (Suc depth) w u st = Some (Inr [], st)"
  by simp

lemma extract_unvisited_grows:
  assumes "u \<notin> visitedSitemaps st" and "extractUrlsFromSitemap depth w u st = Some (r, st')"
  shows "\<exists>rest. grows st st' (u # rest)"
proof (cases depth)
  case 0
  with assms show ?thesis by simp
next
  case (Suc d)
  note v = grows_visit [OF assms(1)]
  from assms Suc have c: "catchAll
        (case fetch w u of
           FetchFailed e \<Rightarrow> Some (Inl e, visit u st)
         | Unparsable m \<Rightarrow> Some (Inl (Error m), visit u st)
         | Document result \<Rightarrow> forLocations d w (locations result) [] (visit u st))
        = Some (r, st')" by simp
  show ?thesis
  proof (cases "fetch w u")
    case (FetchFailed e)
    with c have "st' = visit u st" by simp
    with v show ?thesis by blast
  next
    case (Unparsable m)
    with c have "st' = visit u st" by simp
    with v show ?thesis by blast
  next
    case (Document result)
    with c have "catchAll (forLocations d w (locations result) [] (visit u st)) = Some (r, st')"
      by simp
    from catchAll_Some [OF this] obtain r0 where
      "forLocations d w (locations result) [] (visit u st) = Some (r0, st')" by auto
    from fetch_log(2) [OF this] obtain new where "grows (visit u st) st' new" ..
    from grows_trans [OF v this] show ?thesis by auto
  qed
qed

lemma extract_failure_empty:
  assumes "u \<notin> visitedSitemaps st"
    and "\<not> (\<exists>d. fetch w u = Document d)"
  shows "extractUrlsFromSitemap (Suc depth) w u st = Some (Inr [], visit u st)"
  using assms by (cases "fetch w u") simp_all

lemma exampleWeb_resolved:
  "extractUrlsFromSitemap (Suc (length exampleWeb)) exampleWeb ''/a.xml''
     \<lparr> visitedSitemaps = {}, fetched = [] \<rparr>
   = Some (Inr [''/d1'', ''/c1'', ''/c2''],
           \<lparr> visitedSitemaps = {''/c.xml'', ''/d.xml'', ''/e.xml'', ''/b.xml'', ''/a.xml''},
             fetched = [''/a.xml'', ''/b.xml'', ''/e.xml'', ''/d.xml'', ''/c.xml''] \<rparr>)"
  by code_simp

text \<open>
  C4. Whatever the sitemap graph, no URL the resolver returns ends in \<open>.xml\<close>. The rule
  for one location is the same for an index and for a urlset: a location that ends in
  \<open>.xml\<close> is resolved by a recursive call, whose URLs are appended, and any other
  location is appended itself; an index document gives the locations of its entries
  to this rule, a urlset document those of its url entries.
\<close>

theorem C4_no_xml_page_url:
  "(extractUrlsFromSitemap depth w u st = Some (Inr us, st') \<longrightarrow>
      (\<forall>p \<in> set us. \<not> endsWith p ''.xml''))
   \<and> (firstLoc l = Some c \<and> endsWith c ''.xml'' \<longrightarrow>
        forLocations depth w (l # ls) urls st =
          (case extractUrlsFromSitemap depth w c st of
             None \<Rightarrow> None
           | Some (Inl e, st1) \<Rightarrow> Some (Inl e, st1)
           | Some (Inr childUrls, st1) \<Rightarrow> forLocations depth w ls (urls @ childUrls) st1))
   \<and> (firstLoc l = Some c \<and> \<not> endsWith c ''.xml'' \<longrightarrow>
        forLocations depth w (l # ls) urls st = forLocations depth w ls (urls @ [c]) st)
   \<and> (indexSitemaps d = Some sitemaps \<longrightarrow> locations d = map loc sitemaps)
   \<and> (indexSitemaps d = None \<and> urlsetUrls d = Some urlEntries \<longrightarrow>
        locations d = map loc urlEntries)"
proof -
  have "extractUrlsFromSitemap depth w u st = Some (Inr us, st') \<longrightarrow>
      (\<forall>p \<in> set us. \<not> endsWith p ''.xml'')"
    using no_xml_emitted(1) [of depth w u st us st'] by blast
  then show ?thesis by (simp add: locations_def)
qed

theorem C4_no_xml_page_url_witness:
  "extractUrlsFromSitemap (Suc (length exampleWeb)) exampleWeb ''/a.xml''
     \<lparr> visitedSitemaps = {}, fetched = [] \<rparr>
   = Some (Inr [''/d1'', ''/c1'', ''/c2''],
           \<lparr> visitedSitemaps = {''/c.xml'', ''/d.xml'', ''/e.xml'', ''/b.xml'', ''/a.xml''},
             fetched = [''/a.xml'', ''/b.xml'', ''/e.xml'', ''/d.xml'', ''/c.xml''] \<rparr>)
   \<and> \<not> endsWith ''/d1'' ''.xml'' \<and> \<not> endsWith ''/c1'' ''.xml'' \<and> \<not> endsWith ''/c2'' ''.xml''
   \<and> firstLoc (Some [''/c1'']) = Some ''/c1''
   \<and> forLocations 1 exampleWeb [Some [''/c1''], Some [''/c2'']] [] \<lparr> visitedSitemaps = {}, fetched = [] \<rparr>
       = forLocations 1 exampleWeb [Some [''/c2'']] [''/c1''] \<lparr> visitedSitemaps = {}, fetched = [] \<rparr>"
proof -
  let ?st = "\<lparr> visitedSitemaps = {}, fetched = [] \<rparr>"
  note t = C4_no_xml_page_url [of "Suc (length exampleWeb)" exampleWeb "''/a.xml''" ?st
      "[''/d1'', ''/c1'', ''/c2'']"
      "\<lparr> visitedSitemaps = {''/c.xml'', ''/d.xml'', ''/e.xml'', ''/b.xml'', ''/a.xml''},
         fetched = [''/a.xml'', ''/b.xml'', ''/e.xml'', ''/d.xml'', ''/c.xml''] \<rparr>"]
  from t exampleWeb_resolved show ?thesis
    by (simp add: firstLoc_def endsWith_def)
qed

text \<open>
  C5. On every sitemap graph, cycles or not, the resolution returns: a recursion depth
  above the number of entries of the graph is never reached, and what a call returns
  does not depend on the bound. A call fetches only URLs
  that were not in the visited set, each of them once, and marks exactly these as
  visited; started with the empty set, the URLs it has fetched are pairwise distinct. A
  call on a URL of the visited set returns the empty list at once and leaves the state
  as it is (nothing is fetched); any other call marks its URL as visited and fetches it
  before anything else.
\<close>

theorem C5_terminates_each_sitemap_once:
  "(length w < depth \<longrightarrow> (\<exists>us st'. extractUrlsFromSitemap depth w u st = Some (Inr us, st')))
   \<and> (extractUrlsFromSitemap depth w u st = Some (r, st') \<longrightarrow>
        (\<exists>new. fetched st' = fetched st @ new \<and> distinct new
               \<and> set new \<inter> visitedSitemaps st = {}
               \<and> visitedSitemaps st' = visitedSitemaps st \<union> set new))
   \<and> (extractUrlsFromSitemap depth w u \<lparr> visitedSitemaps = {}, fetched = [] \<rparr> = Some (r, st') \<longrightarrow>
        distinct (fetched st') \<and> set (fetched st') = visitedSitemaps st')
   \<and> (u \<in> visitedSitemaps st \<longrightarrow> extractUrlsFromSitemap (Suc depth) w u st = Some (Inr [], st))
   \<and> (u \<notin> visitedSitemaps st \<and> extractUrlsFromSitemap depth w u st = Some (r, st') \<longrightarrow>
        u \<in> visitedSitemaps st' \<and> (\<exists>rest. fetched st' = fetched st @ u # rest))
   \<and> (extractUrlsFromSitemap depth w u st = Some (r, st') \<and> depth \<le> depth' \<longrightarrow>
        extractUrlsFromSitemap depth' w u st = Some (r, st'))"
proof -
  have a: "length w < depth \<longrightarrow> (\<exists>us st'. extractUrlsFromSitemap depth w u st = Some (Inr us, st'))"
    using extract_returns [of w depth u st] by blast
  have b: "extractUrlsFromSitemap depth w u st = Some (r, st') \<longrightarrow>
        (\<exists>new. fetched st' = fetched st @ new \<and> distinct new
               \<and> set new \<inter> visitedSitemaps st = {}
               \<and> visitedSitemaps st' = visitedSitemaps st \<union> set new)"
    using fetch_log(1) [of depth w u st r st'] by (auto simp: grows_def)
  have c: "extractUrlsFromSitemap depth w u \<lparr> visitedSitemaps = {}, fetched = [] \<rparr> = Some (r, st') \<longrightarrow>
        distinct (fetched st') \<and> set (fetched st') = visitedSitemaps st'"
    using fetch_log(1) [of depth w u "\<lparr> visitedSitemaps = {}, fetched = [] \<rparr>" r st']
    by (auto simp: grows_def)
  have d: "u \<in> visitedSitemaps st \<longrightarrow> extractUrlsFromSitemap (Suc depth) w u st = Some (Inr [], st)"
    by simp
  have e: "u \<notin> visitedSitemaps st \<and> extractUrlsFromSitemap depth w u st = Some (r, st') \<longrightarrow>
        u \<in> visitedSitemaps st' \<and> (\<exists>rest. fetched st' = fetched st @ u # rest)"
    using extract_unvisited_grows [of u st depth w r st'] by (auto simp: grows_def)
  have f: "extractUrlsFromSitemap depth w u st = Some (r, st') \<and> depth \<le> depth' \<longrightarrow>
        extractUrlsFromSitemap depth' w u st = Some (r, st')"
    using deeper_same_le [of depth w u st "(r, st')" depth'] by blast
  from a b c d e f show ?thesis by blast
qed

theorem C5_terminates_each_sitemap_once_witness:
  "length exampleWeb < Suc (length exampleWeb)
   \<and> extractUrlsFromSitemap (Suc (length exampleWeb)) exampleWeb ''/a.xml''
       \<lparr> visitedSitemaps = {}, fetched = [] \<rparr>
     = Some (Inr [''/d1'', ''/c1'', ''/c2''],
             \<lparr> visitedSitemaps = {''/c.xml'', ''/d.xml'', ''/e.xml'', ''/b.xml'', ''/a.xml''},
               fetched = [''/a.xml'', ''/b.xml'', ''/e.xml'', ''/d.xml'', ''/c.xml''] \<rparr>)
   \<and> distinct [''/a.xml'', ''/b.xml'', ''/e.xml'', ''/d.xml'', ''/c.xml'']
   \<and> ''/a.xml'' \<in> {''/a.xml''}
   \<and> extractUrlsFromSitemap (Suc 0) exampleWeb ''/a.xml'' \<lparr> visitedSitemaps = {''/a.xml''}, fetched = [''/a.xml''] \<rparr>
     = Some (Inr [], \<lparr> visitedSitemaps = {''/a.xml''}, fetched = [''/a.xml''] \<rparr>)"
proof -
  let ?st = "\<lparr> visitedSitemaps = {}, fetched = [] \<rparr>"
  let ?st' = "\<lparr> visitedSitemaps = {''/c.xml'', ''/d.xml'', ''/e.xml'', ''/b.xml'', ''/a.xml''},
         fetched = [''/a.xml'', ''/b.xml'', ''/e.xml'', ''/d.xml'', ''/c.xml''] \<rparr>"
  note r = exampleWeb_resolved
  have h: "length exampleWeb < Suc (length exampleWeb)" by simp
  from C5_terminates_each_sitemap_once [of exampleWeb "Suc (length exampleWeb)" "''/a.xml''" ?st
      "Inr [''/d1'', ''/c1'', ''/c2'']" ?st']
  have "extractUrlsFromSitemap (Suc (length exampleWeb)) exampleWeb ''/a.xml'' ?st
          = Some (Inr [''/d1'', ''/c1'', ''/c2''], ?st')
        \<longrightarrow> distinct (fetched ?st') \<and> set (fetched ?st') = visitedSitemaps ?st'"
    by blast
  with r have "distinct (fetched ?st')" by blast
  then have d: "distinct [''/a.xml'', ''/b.xml'', ''/e.xml'', ''/d.xml'', ''/c.xml'']" by simp
  have m: "''/a.xml'' \<in> {''/a.xml''}" by simp
  have v: "extractUrlsFromSitemap (Suc 0) exampleWeb ''/a.xml''
             \<lparr> visitedSitemaps = {''/a.xml''}, fetched = [''/a.xml''] \<rparr>
           = Some (Inr [], \<lparr> visitedSitemaps = {''/a.xml''}, fetched = [''/a.xml''] \<rparr>)"
    by simp
  show ?thesis by (intro conjI h r d m v)
qed

text \<open>
  C6. The resolver never raises: whatever a call returns is a list of URLs, never an
  error, and on every sitemap graph it does return one. A node whose fetch or whose
  parse fails gives the empty list and is marked as visited, nothing else changes;
  the loop that met it as a nested sitemap goes on with the next location, with the
  URLs it had collected so far.
\<close>

theorem C6_resolver_never_raises:
  "(extractUrlsFromSitemap depth w u st = Some (r, st') \<longrightarrow> (\<exists>us. r = Inr us))
   \<and> (length w < depth \<longrightarrow> (\<exists>us st'. extractUrlsFromSitemap depth w u st = Some (Inr us, st')))
   \<and> (u \<notin> visitedSitemaps st \<and> (fetch w u = FetchFailed e \<or> fetch w u = Unparsable m) \<longrightarrow>
        extractUrlsFromSitemap (Suc depth) w u st = Some (Inr [], visit u st)
        \<and> (firstLoc l = Some u \<and> endsWith u ''.xml'' \<longrightarrow>
             forLocations (Suc depth) w (l # ls) urls st
               = forLocations (Suc depth) w ls urls (visit u st)))"
proof -
  have a: "extractUrlsFromSitemap depth w u st = Some (r, st') \<longrightarrow> (\<exists>us. r = Inr us)"
    using extract_never_raises [of depth w u st r st'] by blast
  have b: "length w < depth \<longrightarrow> (\<exists>us st'. extractUrlsFromSitemap depth w u st = Some (Inr us, st'))"
    using extract_returns [of w depth u st] by blast
  have c: "extractUrlsFromSitemap (Suc depth) w u st = Some (Inr [], visit u st)
        \<and> (firstLoc l = Some u \<and> endsWith u ''.xml'' \<longrightarrow>
             forLocations (Suc depth) w (l # ls) urls st
               = forLocations (Suc depth) w ls urls (visit u st))"
    if "u \<notin> visitedSitemaps st" and "fetch w u = FetchFailed e \<or> fetch w u = Unparsable m"
  proof -
    from that have "\<not> (\<exists>d. fetch w u = Document d)" by auto
    from extract_failure_empty [OF that(1) this]
    have f: "extractUrlsFromSitemap (Suc depth) w u st = Some (Inr [], visit u st)" .
    then show ?thesis by (simp del: extractUrlsFromSitemap.simps)
  qed
  from a b c show ?thesis by blast
qed

theorem C6_resolver_never_raises_witness:
  "''/e.xml'' \<notin> {''/b.xml'', ''/a.xml''}
   \<and> fetch exampleWeb ''/e.xml'' = Unparsable ''Non-whitespace before first tag.''
   \<and> extractUrlsFromSitemap (Suc 0) exampleWeb ''/e.xml''
        \<lparr> visitedSitemaps = {''/b.xml'', ''/a.xml''}, fetched = [''/a.xml'', ''/b.xml''] \<rparr>
      = Some (Inr [], \<lparr> visitedSitemaps = {''/e.xml'', ''/b.xml'', ''/a.xml''},
                        fetched = [''/a.xml'', ''/b.xml'', ''/e.xml''] \<rparr>)
   \<and> firstLoc (Some [''/e.xml'']) = Some ''/e.xml''
   \<and> endsWith ''/e.xml'' ''.xml''
   \<and> forLocations (Suc 0) exampleWeb [Some [''/e.xml''], Some [''/p1'']] [''/p0'']
        \<lparr> visitedSitemaps = {''/b.xml'', ''/a.xml''}, fetched = [''/a.xml'', ''/b.xml''] \<rparr>
      = Some (Inr [''/p0'', ''/p1''],
              \<lparr> visitedSitemaps = {''/e.xml'', ''/b.xml'', ''/a.xml''},
                fetched = [''/a.xml'', ''/b.xml'', ''/e.xml''] \<rparr>)
   \<and> extractUrlsFromSitemap (Suc (length exampleWeb)) exampleWeb ''/a.xml''
        \<lparr> visitedSitemaps = {}, fetched = [] \<rparr>
      = Some (Inr [''/d1'', ''/c1'', ''/c2''],
           \<lparr> visitedSitemaps = {''/c.xml'', ''/d.xml'', ''/e.xml'', ''/b.xml'', ''/a.xml''},
             fetched = [''/a.xml'', ''/b.xml'', ''/e.xml'', ''/d.xml'', ''/c.xml''] \<rparr>)"
proof -
  let ?st = "\<lparr> visitedSitemaps = {''/b.xml'', ''/a.xml''}, fetched = [''/a.xml'', ''/b.xml''] \<rparr>"
  have f: "fetch exampleWeb ''/e.xml'' = Unparsable ''Non-whitespace before first tag.''"
    by (simp add: exampleWeb_def fetch_def)
  note t = C6_resolver_never_raises [of 0 exampleWeb "''/e.xml''" ?st "Inr []" ?st
      "AxiosError None" "''Non-whitespace before first tag.''" "Some [''/e.xml'']"
      "[Some [''/p1'']]" "[''/p0'']"]
  from t f exampleWeb_resolved show ?thesis
    by (simp add: firstLoc_def endsWith_def visit_def)
qed

section \<open>Properties of the reachability checker\<close>

text \<open>
  C9. \<open>checkPageExist\<close> returns \<open>false\<close> when the probe yields 404, returns \<open>true\<close>
  when the probe yields a successful response, and raises again, unchanged, whatever
  else the probe raised: an error status other than 404, or no response at all.
\<close>

theorem C9_checkPageExist:
  "checkPageExist (axios_head (Status 404)) = Inr False
   \<and> (200 \<le> s \<and> s < 300 \<longrightarrow> checkPageExist (axios_head (Status s)) = Inr True)
   \<and> (\<not> (200 \<le> s \<and> s < 300) \<and> s \<noteq> 404 \<longrightarrow>
        checkPageExist (axios_head (Status s)) = Inl (AxiosError (Some s)))
   \<and> checkPageExist (axios_head NoResponse) = Inl (AxiosError None)
   \<and> checkPageExist (Inr response) = Inr True
   \<and> checkPageExist (Inl (AxiosError (Some 404))) = Inr False
   \<and> (err \<noteq> AxiosError (Some 404) \<longrightarrow> checkPageExist (Inl err) = Inl err)"
proof -
  have "isNotFound err = (err = AxiosError (Some 404))"
    by (cases err) auto
  then show ?thesis
    by (simp add: checkPageExist_def axios_head_def)
qed

theorem C9_checkPageExist_witness:
  "(200::nat) \<le> 204 \<and> (204::nat) < 300
   \<and> checkPageExist (axios_head (Status 204)) = Inr True
   \<and> checkPageExist (axios_head (Status 404)) = Inr False
   \<and> Error ''Invalid URL'' \<noteq> AxiosError (Some 404)
   \<and> checkPageExist (Inl (Error ''Invalid URL'')) = Inl (Error ''Invalid URL'')"
  using C9_checkPageExist [of 204 0 "Error ''Invalid URL''"]
  by simp

end
